theory Spec2Isabelle
  imports Main "HOL-Library.Char_ord" "HOL-Library.List_Lexorder" "HOL-Library.Monad_Syntax"
begin

section \<open>The log event extractor of scripts/parse_logs.py\<close>

text \<open>
  The script reads every file matched by \<^verbatim>\<open>go_client/debug-*.log\<close> in sorted order,
  scans its lines for event headers \<^verbatim>\<open>recv udp tag 2\<close>, decodes the hex lines that follow
  each one and collects at most three records \<^verbatim>\<open>{timestamp, data}\<close>.

  Text is modelled as \<^typ>\<open>string\<close>, a line as one string (its newline included, as
  \<^verbatim>\<open>readlines\<close> leaves it), a file as the list of its lines, a byte as a natural number
  below 256, and the file system as a partial map from paths to files: a path with no
  entry cannot be opened.
\<close>

subsection \<open>Character classes and regular expression pieces\<close>

text \<open>
  \<^verbatim>\<open>\d\<close> and \<^verbatim>\<open>[0-9a-f]\<close>. On the characters of \<^typ>\<open>char\<close> the decimal digits are
  \<^verbatim>\<open>0\<close> to \<^verbatim>\<open>9\<close> only.
\<close>

definition is_digit :: "char \<Rightarrow> bool" where
  "is_digit c = (c \<in> set ''0123456789'')"

definition is_hex :: "char \<Rightarrow> bool" where
  "is_hex c = (c \<in> set ''0123456789abcdef'')"

text \<open>
  A matcher consumes a prefix of its input and returns the text it matched and the rest,
  or fails. All four patterns of the script are anchored at the start of the line
  (\<^verbatim>\<open>^\<close> and \<^verbatim>\<open>match\<close>) and none needs backtracking: a counted repetition has one
  length, the alternatives \<^verbatim>\<open>send|recv\<close> and \<^verbatim>\<open>tcp|udp\<close> start with different letters,
  and each greedy \<^verbatim>\<open>\d+\<close> is followed by a space or ends the pattern, so giving back a
  digit can never make the rest match.
\<close>

type_synonym matcher = "string \<Rightarrow> (string \<times> string) option"

definition lit :: "string \<Rightarrow> matcher" where
  "lit t s = (if take (length t) s = t then Some (t, drop (length t) s) else None)"

definition cls_n :: "(char \<Rightarrow> bool) \<Rightarrow> nat \<Rightarrow> matcher" where
  "cls_n P n s =
     (if n \<le> length s \<and> list_all P (take n s) then Some (take n s, drop n s) else None)"

definition cls_plus :: "(char \<Rightarrow> bool) \<Rightarrow> matcher" where
  "cls_plus P s =
     (if takeWhile P s = [] then None else Some (takeWhile P s, dropWhile P s))"

definition alt :: "matcher \<Rightarrow> matcher \<Rightarrow> matcher" where
  "alt p q s = (case p s of Some r \<Rightarrow> Some r | None \<Rightarrow> q s)"

definition then_m :: "matcher \<Rightarrow> matcher \<Rightarrow> matcher" where
  "then_m p q s =
     (case p s of None \<Rightarrow> None
      | Some (a, r) \<Rightarrow> (case q r of None \<Rightarrow> None | Some (b, r') \<Rightarrow> Some (a @ b, r')))"

definition seq_m :: "matcher list \<Rightarrow> matcher" where
  "seq_m ps = foldr then_m ps (\<lambda>s. Some ([], s))"

text \<open>The timestamp \<^verbatim>\<open>\d{4}/\d{2}/\d{2} \d{2}:\d{2}:\d{2}\<close> shared by two patterns.\<close>

definition ts_re :: matcher where
  "ts_re = seq_m [cls_n is_digit 4, lit ''/'', cls_n is_digit 2, lit ''/'', cls_n is_digit 2,
                  lit '' '', cls_n is_digit 2, lit '':'', cls_n is_digit 2, lit '':'',
                  cls_n is_digit 2]"

text \<open>
  \<^verbatim>\<open>event_re.match(line)\<close>: \<^const>\<open>None\<close> when the line is no event header, otherwise the
  five groups (timestamp, direction, protocol, tag, length).
\<close>

definition event_re :: "string \<Rightarrow> (string \<times> string \<times> string \<times> string \<times> string) option" where
  "event_re s = do {
     (ts, r) \<leftarrow> ts_re s;
     (_, r) \<leftarrow> lit '' '' r;
     (direction, r) \<leftarrow> alt (lit ''send'') (lit ''recv'') r;
     (_, r) \<leftarrow> lit '' '' r;
     (proto, r) \<leftarrow> alt (lit ''tcp'') (lit ''udp'') r;
     (_, r) \<leftarrow> lit '' tag '' r;
     (tag, r) \<leftarrow> cls_plus is_digit r;
     (_, r) \<leftarrow> lit '' len '' r;
     (len, r) \<leftarrow> cls_plus is_digit r;
     Some (ts, direction, proto, tag, len)
   }"

text \<open>\<^verbatim>\<open>size_re.match(line)\<close> and \<^verbatim>\<open>hex_re.match(line)\<close>, used for their truth value only.\<close>

definition size_re :: "string \<Rightarrow> bool" where
  "size_re s =
     (seq_m [ts_re, lit '' '', alt (lit ''send'') (lit ''recv''), lit '' '',
             cls_plus is_digit, lit '' bytes''] s \<noteq> None)"

definition hex_re :: "string \<Rightarrow> bool" where
  "hex_re s = (cls_n is_hex 8 s \<noteq> None)"

text \<open>
  \<^verbatim>\<open>byte_re.findall(line)\<close>: the pairs of hex digits found scanning from the left, each
  search resuming after the previous pair.
\<close>

fun byte_re_findall :: "string \<Rightarrow> string list" where
  "byte_re_findall (a # b # s) =
     (if is_hex a \<and> is_hex b then [a, b] # byte_re_findall s else byte_re_findall (b # s))"
| "byte_re_findall s = []"

subsection \<open>Decoding and encoding\<close>

text \<open>\<^verbatim>\<open>int(b, 16)\<close> on a string of lowercase hex digits.\<close>

definition hex_val :: "char \<Rightarrow> nat" where
  "hex_val c = (if is_digit c then of_char c - 48 else of_char c - 87)"

definition int16 :: "string \<Rightarrow> nat" where
  "int16 b = foldl (\<lambda>n c. 16 * n + hex_val c) 0 b"

text \<open>
  \<^verbatim>\<open>base64.b64encode(data).decode('ascii')\<close>, the standard alphabet with padding: three
  bytes give four characters, a final group of one or two bytes is padded with \<^verbatim>\<open>=\<close>.
\<close>

definition b64_alphabet :: string where
  "b64_alphabet = ''ABCDEFGHIJKLMNOPQRSTUVWXYZabcdefghijklmnopqrstuvwxyz0123456789+/''"

definition b64_char :: "nat \<Rightarrow> char" where
  "b64_char n = b64_alphabet ! n"

fun b64encode :: "nat list \<Rightarrow> string" where
  "b64encode [] = []"
| "b64encode [a] = [b64_char (a div 4), b64_char (a mod 4 * 16), CHR ''='', CHR ''='']"
| "b64encode [a, b] =
     [b64_char (a div 4), b64_char (a mod 4 * 16 + b div 16), b64_char (b mod 16 * 4),
      CHR ''='']"
| "b64encode (a # b # c # rest) =
     [b64_char (a div 4), b64_char (a mod 4 * 16 + b div 16),
      b64_char (b mod 16 * 4 + c div 64), b64_char (c mod 64)] @ b64encode rest"

subsection \<open>The scanning loops\<close>

record extracted =
  timestamp :: string
  data :: string

text \<open>
  The inner loop: while the line under the cursor is a hex line, append the value of each
  of its pairs to the accumulator and advance.
\<close>

function hex_loop :: "string list \<Rightarrow> nat \<Rightarrow> nat list \<Rightarrow> nat \<times> nat list" where
  "hex_loop lines i data' =
     (if i < length lines \<and> hex_re (lines ! i)
      then hex_loop lines (i + 1)
             (foldl (\<lambda>d b. d @ [int16 b]) data' (byte_re_findall (lines ! i)))
      else (i, data'))"
  by pat_completeness auto
termination
  by (relation "measure (\<lambda>(lines, i, data'). length lines - i)") auto

text \<open>
  The outer loop over the lines of one file, from cursor \<open>i\<close> with the records collected
  so far; it returns the final cursor and the records.
\<close>

function scan :: "string list \<Rightarrow> nat \<Rightarrow> extracted list \<Rightarrow> nat \<times> extracted list" where
  "scan lines i output =
     (if i < length lines \<and> length output < 3 then
        (case event_re (lines ! i) of
           None \<Rightarrow> scan lines (i + 1) output
         | Some (ts, direction, proto, tag, len) \<Rightarrow>
             if \<not> (direction = ''recv'' \<and> proto = ''udp'' \<and> tag = ''2'')
             then scan lines (i + 1) output
             else (let i1 = i + 1;
                       i2 = (if i1 < length lines \<and> size_re (lines ! i1) then i1 + 1 else i1);
                       (i3, data') = hex_loop lines i2 []
                   in scan lines i3
                        (output @ [\<lparr>timestamp = ts, data = b64encode data'\<rparr>])))
      else (i, output))"
  by pat_completeness auto
termination
proof (relation "measure (\<lambda>(lines, i, output). length lines - i)", goal_cases)
  case 1
  show ?case by simp
next
  case (2 lines i out)
  then have "length lines - Suc i < length lines - i"
    by (intro diff_less_mono2) simp_all
  then show ?case by simp
next
  case (3 lines i out)
  then have "length lines - Suc i < length lines - i"
    by (intro diff_less_mono2) simp_all
  then show ?case by simp
next
  case (4 lines i out x2 ts y direction ya proto yb tag len i1 i2 r i3 d)
  have ge: "j \<le> fst (hex_loop ls j acc)" for ls j acc
  proof (induction ls j acc rule: hex_loop.induct)
    case (1 ls j acc)
    show ?case
    proof (cases "j < length ls \<and> hex_re (ls ! j)")
      case True
      with 1 have "j + 1 \<le> fst (hex_loop ls j acc)" by simp
      then show ?thesis by simp
    next
      case False
      then show ?thesis by simp
    qed
  qed
  have "i2 \<le> fst (hex_loop lines i2 [])" by (rule ge)
  moreover have "i < i2" using 4(8,9) by (simp split: if_splits)
  moreover have "fst (hex_loop lines i2 []) = i3" using 4(10,11) by (metis fst_conv)
  ultimately have "i < i3" by simp
  moreover have "i < length lines" using 4(1) by simp
  ultimately have "length lines - i3 < length lines - i"
    by (intro diff_less_mono2) simp_all
  then show ?case by simp
qed

subsection \<open>The run over all files\<close>

datatype error = IOError string

text \<open>
  The loop over the sorted paths. Each file is opened and read whole before its lines are
  scanned; a path that cannot be opened raises, which ends the run. The first component
  of the result lists the paths on which \<^verbatim>\<open>open\<close> was called, in order.
\<close>

fun for_paths ::
  "(string \<rightharpoonup> string list) \<Rightarrow> string list \<Rightarrow> string list \<Rightarrow> extracted list
     \<Rightarrow> string list \<times> (error + extracted list)" where
  "for_paths fs [] opened output = (opened, Inr output)"
| "for_paths fs (path # paths) opened output =
     (case fs path of
        None \<Rightarrow> (opened @ [path], Inl (IOError path))
      | Some lines \<Rightarrow> for_paths fs paths (opened @ [path]) (snd (scan lines 0 output)))"

text \<open>
  The whole script, given the paths that \<^verbatim>\<open>glob\<close> returned: the records handed to
  \<^verbatim>\<open>json.dump\<close>, or the error raised before.
\<close>

definition main :: "(string \<rightharpoonup> string list) \<Rightarrow> string list \<Rightarrow> string list \<times> (error + extracted list)" where
  "main fs globbed = for_paths fs (sort globbed) [] []"

subsection \<open>The events of a file, read off its lines\<close>

text \<open>
  What the outer loop is meant to compute, stated on the lines themselves: a line is a
  qualifying header when it is an event header with direction \<^verbatim>\<open>recv\<close>, protocol
  \<^verbatim>\<open>udp\<close> and tag \<^verbatim>\<open>2\<close>; its record carries the header's timestamp and the bytes of
  the hex lines that follow it, after one optional size line.
\<close>

definition line_bytes :: "string \<Rightarrow> nat list" where
  "line_bytes l = map int16 (byte_re_findall l)"

definition qualifying :: "string \<Rightarrow> bool" where
  "qualifying l =
     (case event_re l of
        None \<Rightarrow> False
      | Some (ts, direction, proto, tag, len) \<Rightarrow>
          direction = ''recv'' \<and> proto = ''udp'' \<and> tag = ''2'')"

definition header_ts :: "string \<Rightarrow> string" where
  "header_ts l = (case event_re l of None \<Rightarrow> [] | Some (ts, rest) \<Rightarrow> ts)"

definition hex_start :: "string list \<Rightarrow> nat \<Rightarrow> nat" where
  "hex_start lines i =
     (if i + 1 < length lines \<and> size_re (lines ! (i + 1)) then i + 2 else i + 1)"

definition hex_lines :: "string list \<Rightarrow> nat \<Rightarrow> string list" where
  "hex_lines lines i = takeWhile hex_re (drop (hex_start lines i) lines)"

definition record_at :: "string list \<Rightarrow> nat \<Rightarrow> extracted" where
  "record_at lines i =
     \<lparr>timestamp = header_ts (lines ! i),
      data = b64encode (concat (map line_bytes (hex_lines lines i)))\<rparr>"

definition events_from :: "string list \<Rightarrow> nat \<Rightarrow> extracted list" where
  "events_from lines i =
     map (record_at lines) (filter (\<lambda>j. qualifying (lines ! j)) [i..<length lines])"

definition events_of :: "string list \<Rightarrow> extracted list" where
  "events_of lines = events_from lines 0"

definition all_events :: "(string \<rightharpoonup> string list) \<Rightarrow> string list \<Rightarrow> extracted list" where
  "all_events fs paths =
     concat (map (\<lambda>p. case fs p of None \<Rightarrow> [] | Some lines \<Rightarrow> events_of lines) paths)"

text \<open>A matcher that, when it succeeds, consumes exactly \<open>n\<close> characters.\<close>

definition fixed :: "matcher \<Rightarrow> nat \<Rightarrow> bool" where
  "fixed p n = (\<forall>s a r. p s = Some (a, r) \<longrightarrow> s = a @ r \<and> length a = n)"

text \<open>A matcher whose result is unchanged when more text follows its input.\<close>

definition stable :: "matcher \<Rightarrow> bool" where
  "stable p = (\<forall>s a r x. p s = Some (a, r) \<longrightarrow> p (s @ x) = Some (a, r @ x))"

subsection \<open>Example inputs\<close>

text \<open>Log files used to evaluate the model on concrete lines.\<close>

definition log_a :: "string list" where
  "log_a = [''2025/03/01 10:00:01 recv udp tag 2 len 2\<newline>'',
            ''2025/03/01 10:00:01 recv 2 bytes\<newline>'',
            ''00000000  01 02\<newline>'',
            ''2025/03/01 10:00:02 send udp tag 2 len 1\<newline>'',
            ''00000000  ff\<newline>'',
            ''2025/03/01 10:00:03 recv udp tag 2 len 0\<newline>'']"

definition log_b :: "string list" where
  "log_b = [''2025/03/01 11:00:01 recv udp tag 2 len 4\<newline>'',
            ''deadbeef\<newline>'',
            ''2025/03/01 11:00:02 recv udp tag 2 len 1\<newline>'',
            ''00000000  7f\<newline>'']"

definition fs_ab :: "string \<rightharpoonup> string list" where
  "fs_ab = [''go_client/debug-1.log'' \<mapsto> log_a, ''go_client/debug-2.log'' \<mapsto> log_b]"

definition globbed_ab :: "string list" where
  "globbed_ab = [''go_client/debug-2.log'', ''go_client/debug-1.log'']"

definition log_quiet :: "string list" where
  "log_quiet = [''2025/03/02 09:00:00 send tcp tag 1 len 4\<newline>'',
                ''00000000  de ad be ef\<newline>'',
                ''client started\<newline>'']"

definition log_c :: "string list" where
  "log_c = [''2025/03/03 08:00:01 recv udp tag 2 len 1\<newline>'',
            ''2025/03/03 08:00:02 recv udp tag 2 len 1\<newline>'',
            ''2025/03/03 08:00:03 recv udp tag 2 len 1\<newline>'',
            ''2025/03/03 08:00:04 recv udp tag 2 len 1\<newline>'']"

definition fs_c :: "string \<rightharpoonup> string list" where
  "fs_c = [''go_client/debug-1.log'' \<mapsto> log_c, ''go_client/debug-2.log'' \<mapsto> log_quiet]"

definition log_tags :: "string list" where
  "log_tags = [''2025/03/04 07:00:01 recv udp tag 02 len 2\<newline>'',
               ''00000000  ab cd\<newline>'',
               ''2025/03/04 07:00:02 recv udp tag 20 len 2\<newline>'',
               ''00000000  ab cd\<newline>'']"

definition log_size :: "string list" where
  "log_size = [''2025/03/05 06:00:01 recv udp tag 2 len 3\<newline>'',
               ''2025/03/05 06:00:01 recv 3 bytes\<newline>'',
               ''00000000  0a 0b\<newline>'',
               ''00000002  0c\<newline>'',
               ''\<newline>'',
               ''00000003  0d\<newline>'']"

definition log_upper :: "string list" where
  "log_upper = [''2025/03/06 05:00:01 recv udp tag 2 len 2\<newline>'',
                ''ABCDEF01  ab cd\<newline>'']"

definition log_empty :: "string list" where
  "log_empty = [''2025/03/07 04:00:01 recv udp tag 2 len 0\<newline>'',
                ''2025/03/07 04:00:01 recv 0 bytes\<newline>'',
                ''connection idle\<newline>'']"

definition log_size_hex :: "string list" where
  "log_size_hex = [''2025/03/08 03:00:01 recv udp tag 2 len 1\<newline>'',
                   ''2025/03/08 03:00:01 recv 1 bytes\<newline>'',
                   ''00000000  7f\<newline>'']"

definition log_spaced :: "string list" where
  "log_spaced = [''2025/03/10 02:00:01 recv udp tag 2 len 4\<newline>'',
                 ''00000000  de ad be ef\<newline>'']"

definition log_dead :: "string list" where
  "log_dead = [''2025/03/11 01:00:01 recv udp tag 2 len 4\<newline>'',
               ''deadbeef\<newline>'',
               ''2025/03/11 01:00:02 send udp tag 2 len 4\<newline>'']"

definition log_example :: "string list" where
  "log_example = [''2025/03/09 12:00:00 send tcp tag 1 len 4\<newline>'',
                  ''2025/03/09 12:00:01 recv udp tag 2 len 2\<newline>'',
                  ''2025/03/09 12:00:01 recv 2 bytes\<newline>'',
                  ''00000000  ab cd\<newline>'']"

section \<open>Properties\<close>

subsection \<open>The patterns\<close>

lemma lit_SomeD: "lit t s = Some (a, r) \<Longrightarrow> a = t \<and> s = t @ r"
  unfolding lit_def by (auto split: if_splits) (metis append_take_drop_id)

lemma cls_n_SomeD: "cls_n P n s = Some (a, r) \<Longrightarrow> s = a @ r \<and> length a = n \<and> list_all P a"
  unfolding cls_n_def by (auto split: if_splits)

lemma cls_plus_SomeD:
  "cls_plus P s = Some (a, r) \<Longrightarrow> s = a @ r \<and> a \<noteq> [] \<and> list_all P a"
  unfolding cls_plus_def by (auto split: if_splits simp: list_all_iff dest: set_takeWhileD)

lemma alt_SomeD: "alt p q s = Some x \<Longrightarrow> p s = Some x \<or> q s = Some x"
  unfolding alt_def by (auto split: option.splits)

lemma then_m_SomeD:
  "then_m p q s = Some (c, r) \<Longrightarrow> \<exists>a b m. p s = Some (a, m) \<and> q m = Some (b, r) \<and> c = a @ b"
  unfolding then_m_def by (auto split: option.splits)

lemma seq_m_Nil: "seq_m [] s = Some ([], s)"
  by (simp add: seq_m_def)

lemma seq_m_Cons: "seq_m (p # ps) = then_m p (seq_m ps)"
  by (simp add: seq_m_def)

lemma fixed_lit: "fixed (lit t) (length t)"
  unfolding fixed_def by (auto dest: lit_SomeD)

lemma fixed_lit1: "fixed (lit [c]) 1"
  using fixed_lit [of "[c]"] by simp

lemma fixed_cls_n: "fixed (cls_n P n) n"
  unfolding fixed_def by (auto dest: cls_n_SomeD)

lemma fixed_alt: "fixed p n \<Longrightarrow> fixed q n \<Longrightarrow> fixed (alt p q) n"
  unfolding fixed_def by (blast dest: alt_SomeD)

lemma fixed_then_m: "fixed p n \<Longrightarrow> fixed q m \<Longrightarrow> fixed (then_m p q) (n + m)"
  unfolding fixed_def by (fastforce dest!: then_m_SomeD)

lemma fixed_seq_Nil: "fixed (seq_m []) 0"
  unfolding fixed_def by (simp add: seq_m_Nil)

lemma fixed_ts_re: "fixed ts_re 19"
proof -
  have "fixed ts_re (4 + (1 + (2 + (1 + (2 + (1 + (2 + (1 + (2 + (1 + (2 + 0)))))))))))"
    unfolding ts_re_def seq_m_Cons
    by (intro fixed_then_m fixed_cls_n fixed_seq_Nil fixed_lit1)
  then show ?thesis by simp
qed

lemma ts_re_SomeD:
  assumes "ts_re s = Some (a, r)"
  shows "s = a @ r" "length a = 19" "a ! 4 = CHR ''/''"
proof -
  show "s = a @ r" "length a = 19"
    using fixed_ts_re assms unfolding fixed_def by blast+
  from assms obtain a1 b1 m1 where 1: "cls_n is_digit 4 s = Some (a1, m1)" and a: "a = a1 @ b1"
    and 2: "seq_m [lit ''/'', cls_n is_digit 2, lit ''/'', cls_n is_digit 2,
                  lit '' '', cls_n is_digit 2, lit '':'', cls_n is_digit 2, lit '':'',
                  cls_n is_digit 2] m1 = Some (b1, r)"
    unfolding ts_re_def seq_m_Cons [of "cls_n is_digit 4"] by (blast dest: then_m_SomeD)
  from 2 obtain a2 b2 m2 where 3: "lit ''/'' m1 = Some (a2, m2)" and b: "b1 = a2 @ b2"
    unfolding seq_m_Cons [of "lit ''/''"] by (blast dest: then_m_SomeD)
  from 1 have "length a1 = 4" by (auto dest: cls_n_SomeD)
  moreover from 3 have "a2 = ''/''" by (auto dest: lit_SomeD)
  ultimately show "a ! 4 = CHR ''/''" using a b by (simp add: nth_append)
qed

lemma dir_SomeD:
  "alt (lit ''send'') (lit ''recv'') s = Some (d, r) \<Longrightarrow>
     s = d @ r \<and> (d = ''send'' \<or> d = ''recv'')"
  by (auto dest!: alt_SomeD lit_SomeD)

lemma proto_SomeD:
  "alt (lit ''tcp'') (lit ''udp'') s = Some (p, r) \<Longrightarrow>
     s = p @ r \<and> (p = ''tcp'' \<or> p = ''udp'')"
  by (auto dest!: alt_SomeD lit_SomeD)

lemma event_re_SomeD:
  assumes "event_re s = Some (ts, d, p, tag, len)"
  shows "\<exists>r. s = ts @ '' '' @ d @ '' '' @ p @ '' tag '' @ tag @ '' len '' @ len @ r"
    and "length ts = 19" and "ts ! 4 = CHR ''/''"
    and "d = ''send'' \<or> d = ''recv''" and "p = ''tcp'' \<or> p = ''udp''"
proof -
  from assms obtain r1 x2 r2 r3 x4 r4 r5 x6 r6 r7 x8 r8 r9 where
    1: "ts_re s = Some (ts, r1)" and 2: "lit '' '' r1 = Some (x2, r2)"
    and 3: "alt (lit ''send'') (lit ''recv'') r2 = Some (d, r3)"
    and 4: "lit '' '' r3 = Some (x4, r4)"
    and 5: "alt (lit ''tcp'') (lit ''udp'') r4 = Some (p, r5)"
    and 6: "lit '' tag '' r5 = Some (x6, r6)"
    and 7: "cls_plus is_digit r6 = Some (tag, r7)"
    and 8: "lit '' len '' r7 = Some (x8, r8)"
    and 9: "cls_plus is_digit r8 = Some (len, r9)"
    unfolding event_re_def by (auto simp: bind_eq_Some_conv)
  from 1 show "length ts = 19" "ts ! 4 = CHR ''/''" by (rule ts_re_SomeD)+
  from 3 show "d = ''send'' \<or> d = ''recv''" by (auto dest: dir_SomeD)
  from 5 show "p = ''tcp'' \<or> p = ''udp''" by (auto dest: proto_SomeD)
  have "s = ts @ r1" using 1 by (rule ts_re_SomeD)
  moreover have "r1 = '' '' @ r2" using 2 by (auto dest: lit_SomeD)
  moreover have "r2 = d @ r3" using 3 by (auto dest: dir_SomeD)
  moreover have "r3 = '' '' @ r4" using 4 by (auto dest: lit_SomeD)
  moreover have "r4 = p @ r5" using 5 by (auto dest: proto_SomeD)
  moreover have "r5 = '' tag '' @ r6" using 6 by (auto dest: lit_SomeD)
  moreover have "r6 = tag @ r7" using 7 by (auto dest: cls_plus_SomeD)
  moreover have "r7 = '' len '' @ r8" using 8 by (auto dest: lit_SomeD)
  moreover have "r8 = len @ r9" using 9 by (auto dest: cls_plus_SomeD)
  ultimately have "s = ts @ '' '' @ d @ '' '' @ p @ '' tag '' @ tag @ '' len '' @ len @ r9"
    by simp
  then show "\<exists>r. s = ts @ '' '' @ d @ '' '' @ p @ '' tag '' @ tag @ '' len '' @ len @ r" ..
qed

lemma event_re_nth:
  assumes "event_re s = Some g"
  shows "s ! 4 = CHR ''/''" and "s ! 25 = CHR ''t'' \<or> s ! 25 = CHR ''u''"
proof -
  obtain ts d p tag len where g: "g = (ts, d, p, tag, len)" by (cases g) auto
  note e = event_re_SomeD [OF assms [unfolded g]]
  from e(1) obtain r where s: "s = ts @ '' '' @ d @ '' '' @ p @ '' tag '' @ tag @ '' len '' @ len @ r" ..
  show "s ! 4 = CHR ''/''" using e(2,3) by (simp add: s nth_append)
  have "length d = 4" using e(4) by auto
  then show "s ! 25 = CHR ''t'' \<or> s ! 25 = CHR ''u''"
    using e(2,5) by (auto simp: s nth_append)
qed

lemma size_re_nth:
  assumes "size_re s"
  shows "s ! 4 = CHR ''/''" and "is_digit (s ! 25)"
proof -
  from assms obtain a r where "then_m ts_re (then_m (lit '' '') (then_m (alt (lit ''send'') (lit ''recv''))
      (then_m (lit '' '') (then_m (cls_plus is_digit) (seq_m [lit '' bytes''])))))  s = Some (a, r)"
    unfolding size_re_def seq_m_Cons by auto
  then obtain ts r1 x2 r2 d r3 x4 r4 n r5 where
    1: "ts_re s = Some (ts, r1)" and 2: "lit '' '' r1 = Some (x2, r2)"
    and 3: "alt (lit ''send'') (lit ''recv'') r2 = Some (d, r3)"
    and 4: "lit '' '' r3 = Some (x4, r4)"
    and 5: "cls_plus is_digit r4 = Some (n, r5)"
    by (blast dest!: then_m_SomeD)
  note t = ts_re_SomeD [OF 1]
  have "r1 = '' '' @ r2" using 2 by (auto dest: lit_SomeD)
  moreover have "r2 = d @ r3" and d: "length d = 4" using 3 by (auto dest: dir_SomeD)
  moreover have "r3 = '' '' @ r4" using 4 by (auto dest: lit_SomeD)
  moreover have "r4 = n @ r5" and n: "n \<noteq> []" "list_all is_digit n"
    using 5 by (auto dest: cls_plus_SomeD)
  ultimately have s: "s = ts @ '' '' @ d @ '' '' @ n @ r5" using t(1) by simp
  show "s ! 4 = CHR ''/''" using t(2,3) by (simp add: s nth_append)
  have "s ! 25 = n ! 0" using t(2) d n(1) by (simp add: s nth_append)
  moreover have "is_digit (n ! 0)" using n by (cases n) auto
  ultimately show "is_digit (s ! 25)" by simp
qed

lemma hex_re_iff: "hex_re s \<longleftrightarrow> 8 \<le> length s \<and> list_all is_hex (take 8 s)"
  by (simp add: hex_re_def cls_n_def)

lemma hex_re_nth: "hex_re s \<Longrightarrow> is_hex (s ! 4)"
  by (auto simp: hex_re_iff list_all_length dest: spec [of _ 4])

lemma event_not_hex: "event_re s = Some g \<Longrightarrow> \<not> hex_re s"
  by (auto dest!: event_re_nth(1) hex_re_nth simp: is_hex_def)

lemma size_not_hex: "size_re s \<Longrightarrow> \<not> hex_re s"
  by (auto dest!: size_re_nth(1) hex_re_nth simp: is_hex_def)

lemma event_not_size: "event_re s = Some g \<Longrightarrow> \<not> size_re s"
  by (auto dest!: event_re_nth(2) size_re_nth(2) simp: is_digit_def)

lemma stable_lit: "stable (lit t)"
  unfolding stable_def by (auto dest!: lit_SomeD simp: lit_def)

lemma stable_cls_n: "stable (cls_n P n)"
  unfolding stable_def by (auto simp: cls_n_def split: if_splits)

lemma stable_then_m: "stable p \<Longrightarrow> stable q \<Longrightarrow> stable (then_m p q)"
  unfolding stable_def by (fastforce dest!: then_m_SomeD simp: then_m_def)

lemma stable_seq_Nil: "stable (seq_m [])"
  unfolding stable_def by (simp add: seq_m_Nil)

lemma stable_ts_re: "stable ts_re"
  unfolding ts_re_def seq_m_Cons
  by (intro stable_then_m stable_cls_n stable_seq_Nil stable_lit)

lemma ts_re_append: "ts_re t = Some (t, []) \<Longrightarrow> ts_re (t @ x) = Some (t, x)"
  using stable_ts_re unfolding stable_def by fastforce

lemma byte_re_findall_deadbeef:
  "byte_re_findall (''deadbeef'' @ rest) = [''de'', ''ad'', ''be'', ''ef''] @ byte_re_findall rest"
  by (simp add: is_hex_def)

lemma line_bytes_deadbeef:
  "byte_re_findall rest = [] \<Longrightarrow> line_bytes (''deadbeef'' @ rest) = [0xDE, 0xAD, 0xBE, 0xEF]"
  unfolding line_bytes_def byte_re_findall_deadbeef
  by (simp add: int16_def hex_val_def is_digit_def)

lemma b64encode_deadbeef: "b64encode [0xDE, 0xAD, 0xBE, 0xEF] = ''3q2+7w==''"
  by code_simp

lemma event_re_append_ts:
  assumes "ts_re t = Some (t, [])"
  shows "event_re (t @ '' send tcp tag 1 len 4\<newline>'') = Some (t, ''send'', ''tcp'', ''1'', ''4'')"
    and "event_re (t @ '' recv udp tag 2 len 2\<newline>'') = Some (t, ''recv'', ''udp'', ''2'', ''2'')"
  unfolding event_re_def ts_re_append [OF assms]
  by (simp_all add: lit_def alt_def cls_plus_def is_digit_def)

lemma size_re_append_ts:
  assumes "ts_re t = Some (t, [])"
  shows "size_re (t @ '' recv 2 bytes\<newline>'')"
  unfolding size_re_def seq_m_Cons then_m_def ts_re_append [OF assms]
  by (simp add: seq_m_Nil lit_def alt_def cls_plus_def is_digit_def)

text \<open>Every decoded value fits a byte, so appending it to the byte array cannot fail.\<close>

lemma hex_val_bound: "is_hex c \<Longrightarrow> hex_val c < 16"
  unfolding is_hex_def hex_val_def is_digit_def
  by (simp, elim disjE) simp_all

lemma byte_re_findall_pairs:
  "b \<in> set (byte_re_findall s) \<Longrightarrow> \<exists>x y. b = [x, y] \<and> is_hex x \<and> is_hex y"
proof (induction s rule: byte_re_findall.induct)
  case (1 a b s)
  then show ?case by (cases "is_hex a \<and> is_hex b") auto
qed simp_all

lemma line_bytes_bound: "n \<in> set (line_bytes l) \<Longrightarrow> n < 256"
proof -
  assume "n \<in> set (line_bytes l)"
  then obtain x y where n: "n = int16 [x, y]" and "is_hex x" and "is_hex y"
    unfolding line_bytes_def by (auto dest: byte_re_findall_pairs)
  then have "hex_val x < 16" and "hex_val y < 16" by (simp_all add: hex_val_bound)
  then show ?thesis unfolding n int16_def by simp
qed

subsection \<open>The loops\<close>

declare hex_loop.simps [simp del] scan.simps [simp del]

lemma foldl_append_bytes: "foldl (\<lambda>d b. d @ [int16 b]) d bs = d @ map int16 bs"
  by (induction bs arbitrary: d) auto

lemma foldl_line_bytes:
  "foldl (\<lambda>d b. d @ [int16 b]) d (byte_re_findall l) = d @ line_bytes l"
  by (simp add: foldl_append_bytes line_bytes_def)

lemma hex_loop_eq:
  "hex_loop lines i d =
     (i + length (takeWhile hex_re (drop i lines)),
      d @ concat (map line_bytes (takeWhile hex_re (drop i lines))))"
proof (induction lines i d rule: hex_loop.induct)
  case (1 lines i d)
  show ?case
  proof (cases "i < length lines \<and> hex_re (lines ! i)")
    case True
    then have dr: "drop i lines = lines ! i # drop (Suc i) lines"
      by (simp add: Cons_nth_drop_Suc)
    show ?thesis
      using True 1 [OF True]
      by (subst hex_loop.simps) (simp add: dr foldl_line_bytes)
  next
    case False
    then have "takeWhile hex_re (drop i lines) = []"
      by (cases "i < length lines") (auto simp: Cons_nth_drop_Suc [symmetric])
    with False show ?thesis by (subst hex_loop.simps) auto
  qed
qed

lemma scan_stop: "\<not> (i < length lines \<and> length out < 3) \<Longrightarrow> scan lines i out = (i, out)"
  by (subst scan.simps) auto

lemma scan_skip:
  "i < length lines \<Longrightarrow> length out < 3 \<Longrightarrow> \<not> qualifying (lines ! i) \<Longrightarrow>
     scan lines i out = scan lines (i + 1) out"
  by (subst scan.simps) (auto simp: qualifying_def split: option.splits)

lemma scan_take:
  "i < length lines \<Longrightarrow> length out < 3 \<Longrightarrow> qualifying (lines ! i) \<Longrightarrow>
     scan lines i out =
       scan lines (hex_start lines i + length (hex_lines lines i)) (out @ [record_at lines i])"
  by (subst scan.simps)
     (auto simp: qualifying_def hex_loop_eq hex_start_def hex_lines_def record_at_def
        header_ts_def Let_def split: option.splits)

lemma hex_start_bounds:
  "i < length lines \<Longrightarrow> i < hex_start lines i \<and> hex_start lines i \<le> length lines"
  by (simp add: hex_start_def)

lemma hex_lines_nth:
  assumes "m < length (hex_lines lines i)"
  shows "hex_re (lines ! (hex_start lines i + m))" and "hex_start lines i + m < length lines"
proof -
  let ?d = "drop (hex_start lines i) lines"
  from assms have m: "m < length (takeWhile hex_re ?d)" by (simp add: hex_lines_def)
  also have "\<dots> \<le> length ?d" by (rule length_takeWhile_le)
  finally have md: "m < length ?d" .
  then show "hex_start lines i + m < length lines" by simp
  have "takeWhile hex_re ?d ! m \<in> set (takeWhile hex_re ?d)" using m by simp
  then have "hex_re (takeWhile hex_re ?d ! m)" by (rule set_takeWhileD [THEN conjunct2])
  moreover have "takeWhile hex_re ?d ! m = ?d ! m" using m by (rule takeWhile_nth)
  ultimately show "hex_re (lines ! (hex_start lines i + m))" using md by simp
qed

lemma next_cursor_bound:
  "i < length lines \<Longrightarrow> hex_start lines i + length (hex_lines lines i) \<le> length lines"
proof -
  assume "i < length lines"
  then have "hex_start lines i \<le> length lines" by (simp add: hex_start_bounds)
  moreover have "length (hex_lines lines i) \<le> length lines - hex_start lines i"
    unfolding hex_lines_def using length_takeWhile_le [of hex_re "drop (hex_start lines i) lines"]
    by simp
  ultimately show ?thesis by simp
qed

lemma qualifying_event: "qualifying l \<Longrightarrow> \<exists>g. event_re l = Some g"
  by (auto simp: qualifying_def split: option.splits)

lemma consumed_not_qualifying:
  assumes "i < length lines" and "i < k" and "k < hex_start lines i + length (hex_lines lines i)"
  shows "\<not> qualifying (lines ! k)"
proof (cases "k < hex_start lines i")
  case True
  with assms(2) have "k = i + 1" and "size_re (lines ! (i + 1))"
    by (auto simp: hex_start_def split: if_splits)
  then show ?thesis by (auto dest!: qualifying_event event_not_size)
next
  case False
  then obtain m where k: "k = hex_start lines i + m" and "m < length (hex_lines lines i)"
    using assms(3) by (metis add_diff_inverse_nat nat_add_left_cancel_less)
  then have "hex_re (lines ! k)" by (simp add: hex_lines_nth)
  then show ?thesis by (auto dest!: qualifying_event event_not_hex)
qed

lemma events_from_end: "length lines \<le> i \<Longrightarrow> events_from lines i = []"
  by (simp add: events_from_def)

lemma events_from_step:
  "i < length lines \<Longrightarrow>
     events_from lines i =
       (if qualifying (lines ! i) then [record_at lines i] else []) @ events_from lines (i + 1)"
  by (simp add: events_from_def upt_conv_Cons)

lemma events_from_jump:
  assumes "i \<le> j" and "j \<le> length lines" and "\<And>k. i \<le> k \<Longrightarrow> k < j \<Longrightarrow> \<not> qualifying (lines ! k)"
  shows "events_from lines i = events_from lines j"
proof -
  have "[i..<length lines] = [i..<j] @ [j..<length lines]"
    using assms(1,2) by (metis le_Suc_ex upt_add_eq_append)
  moreover have "filter (\<lambda>k. qualifying (lines ! k)) [i..<j] = []"
    using assms(3) by (auto simp: filter_empty_conv)
  ultimately show ?thesis by (simp add: events_from_def)
qed

lemma scan_events:
  "snd (scan lines i out) = out @ take (3 - length out) (events_from lines i)"
proof (induction "length lines - i" arbitrary: i out rule: less_induct)
  case less
  show ?case
  proof (cases "i < length lines \<and> length out < 3")
    case False
    then show ?thesis by (auto simp: scan_stop events_from_end)
  next
    case True
    then have i: "i < length lines" and o: "length out < 3" by simp_all
    show ?thesis
    proof (cases "qualifying (lines ! i)")
      case False
      have "length lines - (i + 1) < length lines - i" using i by simp
      from less [OF this] show ?thesis
        using False i o by (simp add: scan_skip events_from_step)
    next
      case q: True
      let ?j = "hex_start lines i + length (hex_lines lines i)"
      have ij: "i < ?j" using hex_start_bounds [OF i] by simp
      have jl: "?j \<le> length lines" using i by (rule next_cursor_bound)
      have "length lines - ?j < length lines - i" using ij i by simp
      from less [OF this]
      have "snd (scan lines ?j (out @ [record_at lines i])) =
              (out @ [record_at lines i]) @ take (3 - length (out @ [record_at lines i]))
                (events_from lines ?j)" .
      moreover have "events_from lines (i + 1) = events_from lines ?j"
        using ij jl consumed_not_qualifying [OF i] by (intro events_from_jump) simp_all
      moreover have "3 - length out = Suc (3 - length (out @ [record_at lines i]))"
        using o by simp
      ultimately show ?thesis
        using q i o by (simp add: scan_take events_from_step)
    qed
  qed
qed

lemma scan_take_snd:
  assumes "i < length lines" and "length out < 3" and "qualifying (lines ! i)"
  shows "snd (scan lines i out) =
           out @ [record_at lines i] @
             take (2 - length out)
               (events_from lines (hex_start lines i + length (hex_lines lines i)))"
proof -
  have "3 - length (out @ [record_at lines i]) = 2 - length out" by simp
  then show ?thesis
    unfolding scan_take [OF assms] scan_events by simp
qed

lemma take_cap_append:
  "(out @ take (3 - length out) xs) @ take (3 - length (out @ take (3 - length out) xs)) ys =
     out @ take (3 - length out) (xs @ ys)"
  by (auto simp: min_def)

lemma for_paths_readable:
  "\<forall>p\<in>set paths. fs p \<noteq> None \<Longrightarrow>
     for_paths fs paths opened out =
       (opened @ paths, Inr (out @ take (3 - length out) (all_events fs paths)))"
proof (induction paths arbitrary: opened out)
  case Nil
  then show ?case by (simp add: all_events_def)
next
  case (Cons p paths)
  then obtain lines where l: "fs p = Some lines" by auto
  let ?out1 = "out @ take (3 - length out) (events_of lines)"
  have ev: "all_events fs (p # paths) = events_of lines @ all_events fs paths"
    by (simp add: all_events_def l)
  have "snd (scan lines 0 out) = ?out1"
    by (simp add: scan_events events_of_def)
  then have "for_paths fs (p # paths) opened out = for_paths fs paths (opened @ [p]) ?out1"
    by (simp add: l)
  also have "\<dots> = ((opened @ [p]) @ paths,
      Inr (?out1 @ take (3 - length ?out1) (all_events fs paths)))"
    using Cons.prems by (intro Cons.IH) simp
  also have "?out1 @ take (3 - length ?out1) (all_events fs paths) =
      out @ take (3 - length out) (all_events fs (p # paths))"
    unfolding ev by (rule take_cap_append)
  finally show ?case by simp
qed

lemma for_paths_unreadable:
  "p \<in> set paths \<Longrightarrow> fs p = None \<Longrightarrow>
     \<exists>q\<in>set paths. fs q = None \<and> snd (for_paths fs paths opened out) = Inl (IOError q)"
proof (induction paths arbitrary: opened out)
  case Nil
  then show ?case by simp
next
  case (Cons a paths)
  show ?case
  proof (cases "fs a")
    case None
    then show ?thesis by simp
  next
    case (Some lines)
    with Cons.prems have "p \<in> set paths" by auto
    from Cons.IH [OF this Cons.prems(2)] show ?thesis by (simp add: Some)
  qed
qed

lemma for_paths_capped:
  "3 \<le> length out \<Longrightarrow>
     for_paths fs paths opened out =
       (case find (\<lambda>p. fs p = None) paths of
          None \<Rightarrow> (opened @ paths, Inr out)
        | Some q \<Rightarrow> (opened @ takeWhile (\<lambda>p. fs p \<noteq> None) paths @ [q], Inl (IOError q)))"
proof (induction paths arbitrary: opened)
  case Nil
  then show ?case by simp
next
  case (Cons a paths)
  show ?case
  proof (cases "fs a")
    case None
    then show ?thesis by simp
  next
    case (Some lines)
    have "scan lines 0 out = (0, out)" using Cons.prems by (simp add: scan_stop)
    then show ?thesis using Cons.IH [OF Cons.prems] by (simp add: Some split: option.splits)
  qed
qed

lemma for_paths_sources:
  "snd (for_paths fs paths opened out) = Inr out' \<Longrightarrow> r \<in> set out' \<Longrightarrow>
     r \<in> set out \<or> (\<exists>p\<in>set paths. \<exists>lines. fs p = Some lines \<and> r \<in> set (events_of lines))"
proof (induction paths arbitrary: opened out)
  case Nil
  then show ?case by simp
next
  case (Cons a paths)
  show ?case
  proof (cases "fs a")
    case None
    with Cons.prems show ?thesis by simp
  next
    case (Some lines)
    with Cons.prems have "snd (for_paths fs paths (opened @ [a]) (snd (scan lines 0 out))) = Inr out'"
      by simp
    from Cons.IH [OF this Cons.prems(2)]
    have "r \<in> set (snd (scan lines 0 out)) \<or>
            (\<exists>p\<in>set paths. \<exists>lines. fs p = Some lines \<and> r \<in> set (events_of lines))" .
    moreover have "set (snd (scan lines 0 out)) \<subseteq> set out \<union> set (events_of lines)"
      by (auto simp: scan_events events_of_def dest: in_set_takeD)
    ultimately show ?thesis using Some by auto
  qed
qed

lemma events_of_source:
  "r \<in> set (events_of lines) \<Longrightarrow>
     \<exists>i<length lines. qualifying (lines ! i) \<and> r = record_at lines i"
  by (auto simp: events_of_def events_from_def)

lemma qualifying_iff:
  "qualifying l \<longleftrightarrow> (\<exists>ts len. event_re l = Some (ts, ''recv'', ''udp'', ''2'', len))"
  by (auto simp: qualifying_def split: option.splits)

section \<open>The claims\<close>

text \<open>
  C1, counterexample. In the example scenario the output is not the single record with
  data \<^verbatim>\<open>q80=\<close>: the hex line \<^verbatim>\<open>00000000  ab cd\<close> yields six bytes, the four of its
  leading digits included.
\<close>

theorem example_scenario_counterexample:
  "snd (main [''go_client/debug-1.log'' \<mapsto> log_example] [''go_client/debug-1.log'']) \<noteq>
     Inr [\<lparr>timestamp = ''2025/03/09 12:00:01'', data = ''q80=''\<rparr>] \<and>
   line_bytes (log_example ! 3) = [0, 0, 0, 0, 0xAB, 0xCD]"
  by code_simp

text \<open>
  C1, amended. For the example scenario, whatever the three timestamps, the run over
  that one file gives a single record with the timestamp of the \<^verbatim>\<open>recv udp tag 2\<close>
  header and the data \<^verbatim>\<open>AAAAAKvN\<close>, the base64 text of the six bytes
  00 00 00 00 AB CD: every pair of hex digits of the hex line is consumed, those of its
  first eight characters too.
\<close>

theorem example_scenario_output:
  assumes "ts_re t1 = Some (t1, [])" and "ts_re t2 = Some (t2, [])" and "ts_re t3 = Some (t3, [])"
    and "fs path = Some [t1 @ '' send tcp tag 1 len 4\<newline>'',
                         t2 @ '' recv udp tag 2 len 2\<newline>'',
                         t3 @ '' recv 2 bytes\<newline>'',
                         ''00000000  ab cd\<newline>'']"
  shows "main fs [path] = ([path], Inr [\<lparr>timestamp = t2, data = ''AAAAAKvN''\<rparr>]) \<and>
         ''AAAAAKvN'' = b64encode [0, 0, 0, 0, 0xAB, 0xCD]"
proof -
  let ?lines = "[t1 @ '' send tcp tag 1 len 4\<newline>'', t2 @ '' recv udp tag 2 len 2\<newline>'',
                 t3 @ '' recv 2 bytes\<newline>'', ''00000000  ab cd\<newline>'']"
  have b: "b64encode [0, 0, 0, 0, 0xAB, 0xCD] = ''AAAAAKvN''" by code_simp
  have lb: "line_bytes ''00000000  ab cd\<newline>'' = [0, 0, 0, 0, 0xAB, 0xCD]" by code_simp
  have hx: "hex_re ''00000000  ab cd\<newline>''" by code_simp
  have q0: "\<not> qualifying (?lines ! 0)"
    using event_re_append_ts(1) [OF assms(1)] by (simp add: qualifying_def)
  have e1: "event_re (?lines ! 1) = Some (t2, ''recv'', ''udp'', ''2'', ''2'')"
    using event_re_append_ts(2) [OF assms(2)] by simp
  then have q1: "qualifying (?lines ! 1)" by (simp add: qualifying_def)
  have sz: "size_re (?lines ! 2)" using size_re_append_ts [OF assms(3)] by simp
  have h: "hex_start ?lines 1 = 3" using sz by (simp add: hex_start_def numeral_2_eq_2)
  have hl: "hex_lines ?lines 1 = [''00000000  ab cd\<newline>'']"
    unfolding hex_lines_def h using hx by (simp add: numeral_3_eq_3)
  have "b64encode (concat (map line_bytes [''00000000  ab cd\<newline>''])) = ''AAAAAKvN''"
    by (simp only: list.map concat.simps append_Nil2 lb b)
  then have r: "record_at ?lines 1 = \<lparr>timestamp = t2, data = ''AAAAAKvN''\<rparr>"
    unfolding record_at_def hl header_ts_def e1 by simp
  have "scan ?lines 0 [] = scan ?lines (0 + 1) []"
    using q0 by (intro scan_skip) simp_all
  also have "\<dots> = scan ?lines 1 []" by simp
  also have "\<dots> = scan ?lines (hex_start ?lines 1 + length (hex_lines ?lines 1))
      ([] @ [record_at ?lines 1])"
    using q1 by (intro scan_take) simp_all
  also have "\<dots> = scan ?lines 4 [\<lparr>timestamp = t2, data = ''AAAAAKvN''\<rparr>]"
    unfolding h hl r by simp
  also have "\<dots> = (4, [\<lparr>timestamp = t2, data = ''AAAAAKvN''\<rparr>])"
    by (intro scan_stop) simp
  finally have "scan ?lines 0 [] = (4, [\<lparr>timestamp = t2, data = ''AAAAAKvN''\<rparr>])" .
  then have "main fs [path] = ([path], Inr [\<lparr>timestamp = t2, data = ''AAAAAKvN''\<rparr>])"
    by (simp add: main_def assms(4))
  with b show ?thesis by simp
qed

theorem example_scenario_output_witness:
  "main [''go_client/debug-1.log'' \<mapsto> log_example] [''go_client/debug-1.log''] =
     ([''go_client/debug-1.log''],
      Inr [\<lparr>timestamp = ''2025/03/09 12:00:01'', data = ''AAAAAKvN''\<rparr>]) \<and>
   ''AAAAAKvN'' = b64encode [0, 0, 0, 0, 0xAB, 0xCD]"
proof -
  have 1: "ts_re ''2025/03/09 12:00:00'' = Some (''2025/03/09 12:00:00'', [])"
    "ts_re ''2025/03/09 12:00:01'' = Some (''2025/03/09 12:00:01'', [])"
    "ts_re ''2025/03/09 12:00:01'' = Some (''2025/03/09 12:00:01'', [])" by code_simp+
  have 2: "[''go_client/debug-1.log'' \<mapsto> log_example] ''go_client/debug-1.log'' =
      Some [''2025/03/09 12:00:00'' @ '' send tcp tag 1 len 4\<newline>'',
            ''2025/03/09 12:00:01'' @ '' recv udp tag 2 len 2\<newline>'',
            ''2025/03/09 12:00:01'' @ '' recv 2 bytes\<newline>'',
            ''00000000  ab cd\<newline>'']"
    by (simp add: log_example_def)
  from example_scenario_output [of "''2025/03/09 12:00:00''" "''2025/03/09 12:00:01''"
      "''2025/03/09 12:00:01''" "[''go_client/debug-1.log'' \<mapsto> log_example]"
      "''go_client/debug-1.log''", OF 1 2]
  show ?thesis .
qed

text \<open>
  C2, counterexample. A hex line that holds \<^verbatim>\<open>de ad be ef\<close> behind eight leading hex
  digits, right after a qualifying header: \<^verbatim>\<open>findall\<close> scans the whole line, so the
  accumulator has eight bytes, not four, and the data is not \<^verbatim>\<open>3q2+7w==\<close>.
\<close>

theorem spaced_deadbeef_counterexample:
  "qualifying (log_spaced ! 0) \<and> hex_re (log_spaced ! 1) \<and>
   log_spaced ! 1 = ''00000000  '' @ ''de ad be ef'' @ ''\<newline>'' \<and>
   hex_loop log_spaced 1 [] = (2, [0, 0, 0, 0, 0xDE, 0xAD, 0xBE, 0xEF]) \<and>
   scan log_spaced 0 [] = (2, [\<lparr>timestamp = ''2025/03/10 02:00:01'', data = ''AAAAAN6tvu8=''\<rparr>])"
  by code_simp

text \<open>
  C2, amended. When hex consumption after a qualifying header starts at a line that is
  \<^verbatim>\<open>deadbeef\<close> followed by text holding no pair of hex digits, and the next line is no
  hex line, the accumulator is the four bytes DE AD BE EF and the scan of the file
  returns the records it had, then the record with the header's timestamp and the data
  \<^verbatim>\<open>3q2+7w==\<close>, then at most the first records found below that line.
\<close>

theorem deadbeef_line_decoded:
  assumes "i < length lines" and "length out < 3"
    and "event_re (lines ! i) = Some (ts, ''recv'', ''udp'', ''2'', len)"
    and "j = (if i + 1 < length lines \<and> size_re (lines ! (i + 1)) then i + 2 else i + 1)"
    and "j < length lines" and "lines ! j = ''deadbeef'' @ rest"
    and "byte_re_findall rest = []"
    and "j + 1 < length lines \<longrightarrow> \<not> hex_re (lines ! (j + 1))"
  shows "hex_loop lines j [] = (j + 1, [0xDE, 0xAD, 0xBE, 0xEF]) \<and>
         scan lines i out =
           scan lines (j + 1) (out @ [\<lparr>timestamp = ts, data = ''3q2+7w==''\<rparr>]) \<and>
         snd (scan lines i out) =
           out @ [\<lparr>timestamp = ts, data = ''3q2+7w==''\<rparr>] @
             take (2 - length out) (events_from lines (j + 1))"
proof -
  have q: "qualifying (lines ! i)" using assms(3) by (simp add: qualifying_def)
  have h: "hex_start lines i = j" using assms(4) by (simp add: hex_start_def)
  have hx: "hex_re (lines ! j)" unfolding assms(6) by (simp add: hex_re_iff is_hex_def)
  have dr: "drop j lines = lines ! j # drop (j + 1) lines"
    using assms(5) by (simp add: Cons_nth_drop_Suc)
  have "takeWhile hex_re (drop (j + 1) lines) = []"
    using assms(8) by (cases "j + 1 < length lines") (auto simp: Cons_nth_drop_Suc [symmetric])
  then have tw: "takeWhile hex_re (drop j lines) = [lines ! j]"
    unfolding dr using hx by simp
  have lb: "line_bytes (lines ! j) = [0xDE, 0xAD, 0xBE, 0xEF]"
    unfolding assms(6) using assms(7) by (rule line_bytes_deadbeef)
  have 1: "hex_loop lines j [] = (j + 1, [0xDE, 0xAD, 0xBE, 0xEF])"
    unfolding hex_loop_eq tw using lb by simp
  have "b64encode (concat (map line_bytes [lines ! j])) = ''3q2+7w==''"
    by (simp only: list.map concat.simps append_Nil2 lb b64encode_deadbeef)
  then have r: "record_at lines i = \<lparr>timestamp = ts, data = ''3q2+7w==''\<rparr>"
    using assms(3) by (simp add: record_at_def header_ts_def hex_lines_def h tw)
  have 2: "scan lines i out =
      scan lines (j + 1) (out @ [\<lparr>timestamp = ts, data = ''3q2+7w==''\<rparr>])"
    using scan_take [OF assms(1,2) q] r by (simp add: hex_lines_def h tw)
  have 3: "snd (scan lines i out) =
      out @ [\<lparr>timestamp = ts, data = ''3q2+7w==''\<rparr>] @
        take (2 - length out) (events_from lines (j + 1))"
    using scan_take_snd [OF assms(1,2) q] r by (simp add: hex_lines_def h tw)
  from 1 2 3 show ?thesis by (intro conjI)
qed

theorem deadbeef_line_decoded_witness:
  "hex_loop log_dead 1 [] = (2, [0xDE, 0xAD, 0xBE, 0xEF]) \<and>
   snd (scan log_dead 0 []) = [\<lparr>timestamp = ''2025/03/11 01:00:01'', data = ''3q2+7w==''\<rparr>]"
proof -
  have 1: "0 < length log_dead" "length ([] :: extracted list) < 3"
    "event_re (log_dead ! 0) = Some (''2025/03/11 01:00:01'', ''recv'', ''udp'', ''2'', ''4'')"
    "(1::nat) = (if 0 + 1 < length log_dead \<and> size_re (log_dead ! (0 + 1)) then 0 + 2 else 0 + 1)"
    "1 < length log_dead" "log_dead ! 1 = ''deadbeef'' @ ''\<newline>''"
    "byte_re_findall ''\<newline>'' = []"
    "1 + 1 < length log_dead \<longrightarrow> \<not> hex_re (log_dead ! (1 + 1))" by code_simp+
  have 2: "take (2 - length ([] :: extracted list)) (events_from log_dead (1 + 1)) = []"
    by code_simp
  note t = deadbeef_line_decoded [OF 1]
  from t have "hex_loop log_dead 1 [] = (1 + 1, [0xDE, 0xAD, 0xBE, 0xEF])"
    by (rule conjunct1)
  moreover from t have "snd (scan log_dead 0 []) =
      [] @ [\<lparr>timestamp = ''2025/03/11 01:00:01'', data = ''3q2+7w==''\<rparr>] @
        take (2 - length ([] :: extracted list)) (events_from log_dead (1 + 1))"
    by (rule conjunct2 [THEN conjunct2])
  ultimately show ?thesis unfolding 2 by simp
qed

text \<open>
  C3, counterexample. \<^verbatim>\<open>hex_re\<close> is \<^verbatim>\<open>^[0-9a-f]{8}\<close>, so a line that begins with the
  eight hex digits \<^verbatim>\<open>ABCDEF01\<close> in upper case is not a hex line: the loop stops before
  it and the record of the header above has no data.
\<close>

theorem uppercase_hex_line_counterexample:
  "take 8 (log_upper ! 1) = ''ABCDEF01'' \<and> qualifying (log_upper ! 0) \<and>
   hex_loop log_upper 1 [] = (1, []) \<and>
   scan log_upper 0 [] = (2, [\<lparr>timestamp = ''2025/03/06 05:00:01'', data = ''''\<rparr>])"
  by code_simp

text \<open>
  C3, amended. From cursor \<open>i\<close> the hex loop consumes the longest run of lines that each
  begin with eight characters out of \<^verbatim>\<open>0-9\<close> and lower case \<^verbatim>\<open>a-f\<close>, appends the bytes of
  each of them in order, and stops at the first line that does not begin so, or at the
  end of the file.
\<close>

theorem hex_loop_lowercase_run:
  "(let hx = takeWhile hex_re (drop i lines) in
      hex_loop lines i acc = (i + length hx, acc @ concat (map line_bytes hx)) \<and>
      (\<forall>k<length hx. hex_re (lines ! (i + k))) \<and>
      (i + length hx < length lines \<longrightarrow> \<not> hex_re (lines ! (i + length hx)))) \<and>
   (hex_re l \<longleftrightarrow> 8 \<le> length l \<and> (\<forall>c\<in>set (take 8 l). c \<in> set ''0123456789abcdef''))"
proof -
  let ?d = "drop i lines"
  let ?hx = "takeWhile hex_re ?d"
  have a: "hex_loop lines i acc = (i + length ?hx, acc @ concat (map line_bytes ?hx))"
    by (rule hex_loop_eq)
  have b: "hex_re (lines ! (i + k))" if k: "k < length ?hx" for k
  proof -
    have "k < length ?d" using k length_takeWhile_le [of hex_re ?d] by simp
    moreover have "hex_re (?hx ! k)"
      using k by (intro set_takeWhileD [THEN conjunct2, of _ hex_re ?d]) simp
    moreover have "?hx ! k = ?d ! k" using k by (rule takeWhile_nth)
    ultimately show ?thesis by simp
  qed
  have c: "\<not> hex_re (lines ! (i + length ?hx))" if "i + length ?hx < length lines"
  proof -
    from that have "length ?hx < length ?d" by simp
    then have "\<not> hex_re (?d ! length ?hx)" by (rule nth_length_takeWhile)
    with that show ?thesis by simp
  qed
  have d: "hex_re l \<longleftrightarrow> 8 \<le> length l \<and> (\<forall>c\<in>set (take 8 l). c \<in> set ''0123456789abcdef'')"
    unfolding hex_re_iff list_all_iff is_hex_def ..
  from a b c d show ?thesis unfolding Let_def by blast
qed

theorem hex_loop_lowercase_run_witness:
  "hex_loop log_size 2 [] = (4, [0, 0, 0, 0, 0x0a, 0x0b, 0, 0, 0, 2, 0x0c]) \<and>
   hex_re (log_size ! 2) \<and> hex_re (log_size ! 3) \<and> \<not> hex_re (log_size ! 4) \<and>
   \<not> hex_re (log_upper ! 1)"
proof -
  have 1: "takeWhile hex_re (drop 2 log_size) = [log_size ! 2, log_size ! 3]" by code_simp
  have 2: "concat (map line_bytes [log_size ! 2, log_size ! 3]) =
      [0, 0, 0, 0, 0x0a, 0x0b, 0, 0, 0, 2, 0x0c]" by code_simp
  have 3: "4 < length log_size" by code_simp
  have 4: "\<not> (8 \<le> length (log_upper ! 1) \<and>
      (\<forall>c\<in>set (take 8 (log_upper ! 1)). c \<in> set ''0123456789abcdef''))" by code_simp
  note t = hex_loop_lowercase_run [of 2 log_size "[]" "log_upper ! 1", unfolded Let_def 1]
  from t have a: "hex_loop log_size 2 [] =
      (2 + length [log_size ! 2, log_size ! 3],
       [] @ concat (map line_bytes [log_size ! 2, log_size ! 3]))"
    by (rule conjunct1 [THEN conjunct1])
  from t have b: "\<forall>k<length [log_size ! 2, log_size ! 3]. hex_re (log_size ! (2 + k))"
    by (rule conjunct1 [THEN conjunct2, THEN conjunct1])
  from t have c: "2 + length [log_size ! 2, log_size ! 3] < length log_size \<longrightarrow>
      \<not> hex_re (log_size ! (2 + length [log_size ! 2, log_size ! 3]))"
    by (rule conjunct1 [THEN conjunct2, THEN conjunct2])
  from t have d: "hex_re (log_upper ! 1) \<longleftrightarrow> 8 \<le> length (log_upper ! 1) \<and>
      (\<forall>c\<in>set (take 8 (log_upper ! 1)). c \<in> set ''0123456789abcdef'')"
    by (rule conjunct2)
  have "hex_loop log_size 2 [] = (4, [0, 0, 0, 0, 0x0a, 0x0b, 0, 0, 0, 2, 0x0c])"
    using a unfolding 2 by simp
  moreover have "hex_re (log_size ! 2)" using b [rule_format, of 0] by simp
  moreover have "hex_re (log_size ! 3)" using b [rule_format, of 1] by simp
  moreover have "\<not> hex_re (log_size ! 4)" using c 3 by simp
  moreover have "\<not> hex_re (log_upper ! 1)" using d 4 by blast
  ultimately show ?thesis by (intro conjI)
qed

text \<open>
  C4. When every listed file can be read and the files hold more than three qualifying
  events, the run ends with exactly three records: the first three qualifying events,
  files taken in sorted order of their paths and events in line order within a file.
  With three records collected the scanning loop returns at once, from any cursor,
  without moving it.
\<close>

theorem cap_first_three:
  assumes "\<forall>p\<in>set globbed. fs p \<noteq> None"
    and "3 < length (all_events fs (sort globbed))"
  shows "snd (main fs globbed) = Inr (take 3 (all_events fs (sort globbed))) \<and>
         length (take 3 (all_events fs (sort globbed))) = 3 \<and>
         scan lines i (take 3 (all_events fs (sort globbed))) =
           (i, take 3 (all_events fs (sort globbed)))"
proof -
  have "\<forall>p\<in>set (sort globbed). fs p \<noteq> None" using assms(1) by simp
  then have "snd (main fs globbed) = Inr (take 3 (all_events fs (sort globbed)))"
    by (simp add: main_def for_paths_readable)
  moreover have l: "length (take 3 (all_events fs (sort globbed))) = 3"
    using assms(2) by simp
  moreover have "scan lines i (take 3 (all_events fs (sort globbed))) =
      (i, take 3 (all_events fs (sort globbed)))"
    by (rule scan_stop) (simp only: l, simp)
  ultimately show ?thesis by blast
qed

theorem cap_first_three_witness:
  "snd (main fs_ab globbed_ab) =
     Inr [\<lparr>timestamp = ''2025/03/01 10:00:01'', data = ''AAAAAAEC''\<rparr>,
          \<lparr>timestamp = ''2025/03/01 10:00:03'', data = ''''\<rparr>,
          \<lparr>timestamp = ''2025/03/01 11:00:01'', data = ''3q2+7w==''\<rparr>] \<and>
   length (all_events fs_ab (sort globbed_ab)) = 4"
proof -
  have 1: "\<forall>p\<in>set globbed_ab. fs_ab p \<noteq> None" by code_simp
  have 2: "3 < length (all_events fs_ab (sort globbed_ab))" by code_simp
  have 3: "take 3 (all_events fs_ab (sort globbed_ab)) =
     [\<lparr>timestamp = ''2025/03/01 10:00:01'', data = ''AAAAAAEC''\<rparr>,
      \<lparr>timestamp = ''2025/03/01 10:00:03'', data = ''''\<rparr>,
      \<lparr>timestamp = ''2025/03/01 11:00:01'', data = ''3q2+7w==''\<rparr>]" by code_simp
  have 4: "length (all_events fs_ab (sort globbed_ab)) = 4" by code_simp
  from cap_first_three [OF 1 2] 3 4 show ?thesis by simp
qed

text \<open>
  C5. Every record of a finished run comes from a line of one of the listed files that is
  an event header with direction \<^verbatim>\<open>recv\<close>, protocol \<^verbatim>\<open>udp\<close> and tag \<^verbatim>\<open>2\<close>: the
  record is the one built at that header and carries its timestamp. A header that fails
  one of the three tests therefore never contributes a record, whatever follows it.
\<close>

theorem output_from_qualifying_headers:
  assumes "snd (main fs globbed) = Inr out" and "r \<in> set out"
  shows "\<exists>p\<in>set globbed. \<exists>lines i ts len.
           fs p = Some lines \<and> i < length lines \<and>
           event_re (lines ! i) = Some (ts, ''recv'', ''udp'', ''2'', len) \<and>
           timestamp r = ts \<and> r = record_at lines i"
proof -
  from assms have "r \<in> set [] \<or>
      (\<exists>p\<in>set (sort globbed). \<exists>lines. fs p = Some lines \<and> r \<in> set (events_of lines))"
    unfolding main_def by (rule for_paths_sources)
  then obtain p lines where p: "p \<in> set globbed" and l: "fs p = Some lines"
    and r: "r \<in> set (events_of lines)" by auto
  from r obtain i where i: "i < length lines" and q: "qualifying (lines ! i)"
    and ri: "r = record_at lines i" by (auto dest: events_of_source)
  from q obtain ts len where e: "event_re (lines ! i) = Some (ts, ''recv'', ''udp'', ''2'', len)"
    by (auto simp: qualifying_iff)
  then have "timestamp r = ts" by (simp add: ri record_at_def header_ts_def)
  with p l i e ri show ?thesis by blast
qed

theorem output_from_qualifying_headers_witness:
  "\<exists>p\<in>set globbed_ab. \<exists>lines i ts len.
           fs_ab p = Some lines \<and> i < length lines \<and>
           event_re (lines ! i) = Some (ts, ''recv'', ''udp'', ''2'', len) \<and>
           timestamp \<lparr>timestamp = ''2025/03/01 10:00:03'', data = ''''\<rparr> = ts \<and>
           \<lparr>timestamp = ''2025/03/01 10:00:03'', data = ''''\<rparr> = record_at lines i"
proof -
  have 1: "snd (main fs_ab globbed_ab) =
     Inr [\<lparr>timestamp = ''2025/03/01 10:00:01'', data = ''AAAAAAEC''\<rparr>,
          \<lparr>timestamp = ''2025/03/01 10:00:03'', data = ''''\<rparr>,
          \<lparr>timestamp = ''2025/03/01 11:00:01'', data = ''3q2+7w==''\<rparr>]" by code_simp
  have 2: "\<lparr>timestamp = ''2025/03/01 10:00:03'', data = ''''\<rparr> \<in>
     set [\<lparr>timestamp = ''2025/03/01 10:00:01'', data = ''AAAAAAEC''\<rparr>,
          \<lparr>timestamp = ''2025/03/01 10:00:03'', data = ''''\<rparr>,
          \<lparr>timestamp = ''2025/03/01 11:00:01'', data = ''3q2+7w==''\<rparr>]" by simp
  from output_from_qualifying_headers [OF 1 2] show ?thesis .
qed

text \<open>
  C6, counterexample. A qualifying header whose next line is a size annotation: that
  line is no hex line, yet the hex line below it is decoded and the data is not empty.
\<close>

theorem empty_payload_after_size_line_counterexample:
  "qualifying (log_size_hex ! 0) \<and> \<not> hex_re (log_size_hex ! 1) \<and>
   scan log_size_hex 0 [] = (3, [\<lparr>timestamp = ''2025/03/08 03:00:01'', data = ''AAAAAH8=''\<rparr>])"
  by code_simp

text \<open>
  C6, amended. Let \<open>j\<close> be the line where the hex loop starts: two lines below a
  qualifying header when the line after it is a size annotation, one line below it
  otherwise. If line \<open>j\<close> is not a hex line, or the file ends before it, the scan of the
  file returns the records it had, then the record with the header's timestamp and the
  empty string as data, then at most the first records found from line \<open>j\<close> on.
\<close>

theorem no_hex_line_empty_data:
  assumes "i < length lines" and "length out < 3"
    and "event_re (lines ! i) = Some (ts, ''recv'', ''udp'', ''2'', len)"
    and "j = (if i + 1 < length lines \<and> size_re (lines ! (i + 1)) then i + 2 else i + 1)"
    and "j < length lines \<longrightarrow> \<not> hex_re (lines ! j)"
  shows "scan lines i out = scan lines j (out @ [\<lparr>timestamp = ts, data = ''''\<rparr>]) \<and>
         snd (scan lines i out) =
           out @ [\<lparr>timestamp = ts, data = ''''\<rparr>] @
             take (2 - length out) (events_from lines j)"
proof -
  have q: "qualifying (lines ! i)" using assms(3) by (simp add: qualifying_def)
  have h: "hex_start lines i = j" using assms(4) by (simp add: hex_start_def)
  have "takeWhile hex_re (drop j lines) = []"
    using assms(5) by (cases "j < length lines") (auto simp: Cons_nth_drop_Suc [symmetric])
  then have e: "hex_lines lines i = []" by (simp add: hex_lines_def h)
  have r: "record_at lines i = \<lparr>timestamp = ts, data = ''''\<rparr>"
    using assms(3) by (simp add: record_at_def header_ts_def e)
  have 1: "scan lines i out = scan lines j (out @ [\<lparr>timestamp = ts, data = ''''\<rparr>])"
    using scan_take [OF assms(1,2) q] r by (simp add: e h)
  have 2: "snd (scan lines i out) =
      out @ [\<lparr>timestamp = ts, data = ''''\<rparr>] @ take (2 - length out) (events_from lines j)"
    using scan_take_snd [OF assms(1,2) q] r by (simp add: e h)
  from 1 2 show ?thesis ..
qed

theorem no_hex_line_empty_data_witness:
  "snd (scan log_empty 0 []) = [\<lparr>timestamp = ''2025/03/07 04:00:01'', data = ''''\<rparr>] \<and>
   snd (scan log_a 5 []) = [\<lparr>timestamp = ''2025/03/01 10:00:03'', data = ''''\<rparr>]"
proof -
  have 1: "0 < length log_empty" "length ([] :: extracted list) < 3"
    "event_re (log_empty ! 0) = Some (''2025/03/07 04:00:01'', ''recv'', ''udp'', ''2'', ''0'')"
    "(2::nat) = (if 0 + 1 < length log_empty \<and> size_re (log_empty ! (0 + 1)) then 0 + 2 else 0 + 1)"
    "2 < length log_empty \<longrightarrow> \<not> hex_re (log_empty ! 2)" by code_simp+
  have 2: "5 < length log_a" "length ([] :: extracted list) < 3"
    "event_re (log_a ! 5) = Some (''2025/03/01 10:00:03'', ''recv'', ''udp'', ''2'', ''0'')"
    "(6::nat) = (if 5 + 1 < length log_a \<and> size_re (log_a ! (5 + 1)) then 5 + 2 else 5 + 1)"
    "6 < length log_a \<longrightarrow> \<not> hex_re (log_a ! 6)" by code_simp+
  have 3: "take (2 - length ([] :: extracted list)) (events_from log_empty 2) = []"
    "take (2 - length ([] :: extracted list)) (events_from log_a 6) = []" by code_simp+
  from no_hex_line_empty_data [OF 1, THEN conjunct2]
       no_hex_line_empty_data [OF 2, THEN conjunct2]
  show ?thesis unfolding 3 by simp
qed

text \<open>
  C7. At a qualifying header whose next line is a size annotation, the hex loop starts
  two lines below the header. The scan of the file returns the records it had, then the
  record with the header's timestamp whose data is the base64 text of the bytes of the
  hex lines found from there on and of nothing else, then at most the first records
  found below those hex lines. The size line itself is no hex line.
\<close>

theorem size_line_skipped:
  assumes "i < length lines" and "length out < 3"
    and "event_re (lines ! i) = Some (ts, ''recv'', ''udp'', ''2'', len)"
    and "i + 1 < length lines" and "size_re (lines ! (i + 1))"
  shows "scan lines i out =
           scan lines (i + 2 + length (takeWhile hex_re (drop (i + 2) lines)))
             (out @ [\<lparr>timestamp = ts,
                      data = b64encode
                        (concat (map line_bytes (takeWhile hex_re (drop (i + 2) lines))))\<rparr>]) \<and>
         \<not> hex_re (lines ! (i + 1)) \<and>
         snd (scan lines i out) =
           out @ [\<lparr>timestamp = ts,
                    data = b64encode
                      (concat (map line_bytes (takeWhile hex_re (drop (i + 2) lines))))\<rparr>] @
             take (2 - length out)
               (events_from lines (i + 2 + length (takeWhile hex_re (drop (i + 2) lines))))"
proof -
  have q: "qualifying (lines ! i)" using assms(3) by (simp add: qualifying_def)
  have h: "hex_start lines i = i + 2" using assms(4,5) by (simp add: hex_start_def)
  have r: "record_at lines i =
      \<lparr>timestamp = ts,
       data = b64encode (concat (map line_bytes (takeWhile hex_re (drop (i + 2) lines))))\<rparr>"
    using assms(3) by (simp add: record_at_def header_ts_def hex_lines_def h)
  have 1: "scan lines i out =
      scan lines (i + 2 + length (takeWhile hex_re (drop (i + 2) lines)))
        (out @ [\<lparr>timestamp = ts,
                 data = b64encode
                   (concat (map line_bytes (takeWhile hex_re (drop (i + 2) lines))))\<rparr>])"
    using scan_take [OF assms(1,2) q] r by (simp add: hex_lines_def h)
  have 2: "\<not> hex_re (lines ! (i + 1))" using assms(5) by (rule size_not_hex)
  have 3: "snd (scan lines i out) =
      out @ [\<lparr>timestamp = ts,
               data = b64encode
                 (concat (map line_bytes (takeWhile hex_re (drop (i + 2) lines))))\<rparr>] @
        take (2 - length out)
          (events_from lines (i + 2 + length (takeWhile hex_re (drop (i + 2) lines))))"
    using scan_take_snd [OF assms(1,2) q] r by (simp add: hex_lines_def h)
  from 1 2 3 show ?thesis by (intro conjI)
qed

theorem size_line_skipped_witness:
  "snd (scan log_size 0 []) =
     [\<lparr>timestamp = ''2025/03/05 06:00:01'', data = ''AAAAAAoLAAAAAgw=''\<rparr>] \<and>
   \<not> hex_re (log_size ! 1) \<and>
   ''AAAAAAoLAAAAAgw='' = b64encode (line_bytes (log_size ! 2) @ line_bytes (log_size ! 3))"
proof -
  have 1: "0 < length log_size" "length ([] :: extracted list) < 3"
    "event_re (log_size ! 0) = Some (''2025/03/05 06:00:01'', ''recv'', ''udp'', ''2'', ''3'')"
    "0 + 1 < length log_size" "size_re (log_size ! (0 + 1))" by code_simp+
  have 2: "0 + 2 + length (takeWhile hex_re (drop (0 + 2) log_size)) = 4" by code_simp
  have 3: "b64encode (concat (map line_bytes (takeWhile hex_re (drop (0 + 2) log_size)))) =
      ''AAAAAAoLAAAAAgw=''" by code_simp
  have 4: "''AAAAAAoLAAAAAgw='' = b64encode (line_bytes (log_size ! 2) @ line_bytes (log_size ! 3))"
    by code_simp
  have 5: "take (2 - length ([] :: extracted list)) (events_from log_size 4) = []" by code_simp
  note t = size_line_skipped [OF 1, unfolded 2 3]
  from t have "\<not> hex_re (log_size ! (0 + 1))" by (rule conjunct2 [THEN conjunct1])
  moreover from t have "snd (scan log_size 0 []) =
      [] @ [\<lparr>timestamp = ''2025/03/05 06:00:01'', data = ''AAAAAAoLAAAAAgw=''\<rparr>] @
        take (2 - length ([] :: extracted list)) (events_from log_size 4)"
    by (rule conjunct2 [THEN conjunct2])
  ultimately show ?thesis using 4 unfolding 5 by simp
qed

text \<open>
  C8. If one of the listed paths cannot be opened, the run ends with an \<^verbatim>\<open>IOError\<close> for a
  path that cannot be opened. A file that opens and holds no qualifying header is no
  error: the loop goes on to the next path with the records unchanged.
\<close>

theorem unreadable_file_raises:
  "(p \<in> set globbed \<and> fs p = None \<longrightarrow>
      (\<exists>q\<in>set globbed. fs q = None \<and> snd (main fs globbed) = Inl (IOError q))) \<and>
   (fs path = Some lines \<and> (\<forall>l\<in>set lines. \<not> qualifying l) \<longrightarrow>
      for_paths fs (path # paths) opened out = for_paths fs paths (opened @ [path]) out)"
proof (intro conjI impI)
  assume "p \<in> set globbed \<and> fs p = None"
  then have "p \<in> set (sort globbed)" and "fs p = None" by simp_all
  then have "\<exists>q\<in>set (sort globbed). fs q = None \<and>
      snd (for_paths fs (sort globbed) [] []) = Inl (IOError q)"
    by (rule for_paths_unreadable)
  then show "\<exists>q\<in>set globbed. fs q = None \<and> snd (main fs globbed) = Inl (IOError q)"
    by (simp add: main_def)
next
  assume a: "fs path = Some lines \<and> (\<forall>l\<in>set lines. \<not> qualifying l)"
  then have "filter (\<lambda>j. qualifying (lines ! j)) [0..<length lines] = []"
    by (auto simp: filter_empty_conv)
  then have "events_from lines 0 = []" by (simp add: events_from_def)
  then have "snd (scan lines 0 out) = out" by (simp add: scan_events)
  with a show "for_paths fs (path # paths) opened out = for_paths fs paths (opened @ [path]) out"
    by simp
qed

theorem unreadable_file_raises_witness:
  "(\<exists>q\<in>set [''go_client/debug-1.log'', ''go_client/debug-9.log''].
      [''go_client/debug-1.log'' \<mapsto> log_quiet] q = None \<and>
      snd (main [''go_client/debug-1.log'' \<mapsto> log_quiet]
             [''go_client/debug-1.log'', ''go_client/debug-9.log'']) = Inl (IOError q)) \<and>
   for_paths [''go_client/debug-1.log'' \<mapsto> log_quiet] [''go_client/debug-1.log''] [] [] =
     ([''go_client/debug-1.log''], Inr [])"
proof -
  let ?fs = "[''go_client/debug-1.log'' \<mapsto> log_quiet]"
  have 1: "''go_client/debug-9.log'' \<in> set [''go_client/debug-1.log'', ''go_client/debug-9.log'']
      \<and> ?fs ''go_client/debug-9.log'' = None" by simp
  have 2: "?fs ''go_client/debug-1.log'' = Some log_quiet \<and> (\<forall>l\<in>set log_quiet. \<not> qualifying l)"
    by code_simp
  from unreadable_file_raises [of "''go_client/debug-9.log''"
      "[''go_client/debug-1.log'', ''go_client/debug-9.log'']" ?fs
      "''go_client/debug-1.log''" log_quiet "[]" "[]" "[]"] 1 2
  show ?thesis by simp
qed

text \<open>
  C9. The tag is compared as text with \<^verbatim>\<open>2\<close>: an event header whose tag group is any
  other string is passed over, the cursor moving to the next line and no record being
  built. The pattern captures the digits as written, so \<^verbatim>\<open>02\<close> and \<^verbatim>\<open>20\<close> are both
  rejected.
\<close>

theorem tag_compared_as_text:
  assumes "i < length lines" and "length out < 3"
    and "event_re (lines ! i) = Some (ts, direction, proto, tag, len)"
    and "tag \<noteq> ''2''"
  shows "scan lines i out = scan lines (i + 1) out"
  using assms by (intro scan_skip) (simp_all add: qualifying_def)

theorem tag_compared_as_text_witness:
  "event_re (log_tags ! 0) = Some (''2025/03/04 07:00:01'', ''recv'', ''udp'', ''02'', ''2'') \<and>
   scan log_tags 0 [] = scan log_tags (0 + 1) [] \<and>
   event_re (log_tags ! 2) = Some (''2025/03/04 07:00:02'', ''recv'', ''udp'', ''20'', ''2'') \<and>
   scan log_tags 2 [] = scan log_tags (2 + 1) [] \<and>
   scan log_tags 0 [] = (4, [])"
proof -
  have 1: "0 < length log_tags" and 2: "2 < length log_tags" by code_simp+
  have 3: "length ([] :: extracted list) < 3" by simp
  have 4: "event_re (log_tags ! 0) = Some (''2025/03/04 07:00:01'', ''recv'', ''udp'', ''02'', ''2'')"
    by code_simp
  have 5: "event_re (log_tags ! 2) = Some (''2025/03/04 07:00:02'', ''recv'', ''udp'', ''20'', ''2'')"
    by code_simp
  have 6: "''02'' \<noteq> ''2''" and 7: "''20'' \<noteq> ''2''" by simp_all
  have 8: "scan log_tags 0 [] = (4, [])" by code_simp
  from tag_compared_as_text [OF 1 3 4 6] tag_compared_as_text [OF 2 3 5 7] 4 5 8
  show ?thesis by blast
qed

text \<open>
  C10. With three records already collected, every remaining path is still opened in
  turn: the run raises \<^verbatim>\<open>IOError\<close> at the first one that cannot be opened, and
  otherwise opens them all and keeps the records as they are. No line of those files is
  scanned: the scanning loop returns with its cursor at 0.
\<close>

theorem cap_does_not_stop_opening:
  assumes "3 \<le> length out"
  shows "for_paths fs paths opened out =
           (case find (\<lambda>p. fs p = None) paths of
              None \<Rightarrow> (opened @ paths, Inr out)
            | Some q \<Rightarrow>
                (opened @ takeWhile (\<lambda>p. fs p \<noteq> None) paths @ [q], Inl (IOError q))) \<and>
         scan lines 0 out = (0, out)"
  using assms by (simp add: for_paths_capped scan_stop)

theorem cap_does_not_stop_opening_witness:
  "for_paths fs_c [''go_client/debug-2.log'', ''go_client/debug-3.log'']
     [''go_client/debug-1.log''] (snd (scan log_c 0 [])) =
     ([''go_client/debug-1.log'', ''go_client/debug-2.log'', ''go_client/debug-3.log''],
      Inl (IOError ''go_client/debug-3.log'')) \<and>
   main fs_c [''go_client/debug-1.log'', ''go_client/debug-2.log'', ''go_client/debug-3.log''] =
     ([''go_client/debug-1.log'', ''go_client/debug-2.log'', ''go_client/debug-3.log''],
      Inl (IOError ''go_client/debug-3.log'')) \<and>
   scan log_quiet 0 (snd (scan log_c 0 [])) = (0, snd (scan log_c 0 []))"
proof -
  have 1: "3 \<le> length (snd (scan log_c 0 []))" by code_simp
  have 2: "find (\<lambda>p. fs_c p = None) [''go_client/debug-2.log'', ''go_client/debug-3.log''] =
      Some ''go_client/debug-3.log''" by code_simp
  have 3: "takeWhile (\<lambda>p. fs_c p \<noteq> None) [''go_client/debug-2.log'', ''go_client/debug-3.log''] =
      [''go_client/debug-2.log'']" by code_simp
  have 4: "main fs_c [''go_client/debug-1.log'', ''go_client/debug-2.log'', ''go_client/debug-3.log''] =
     ([''go_client/debug-1.log'', ''go_client/debug-2.log'', ''go_client/debug-3.log''],
      Inl (IOError ''go_client/debug-3.log''))" by code_simp
  from cap_does_not_stop_opening [OF 1, of fs_c
      "[''go_client/debug-2.log'', ''go_client/debug-3.log'']" "[''go_client/debug-1.log'']" log_quiet]
    2 3 4
  show ?thesis by simp
qed

end
